theory Spec2Isabelle
  imports Main "HOL-Library.AList" "HOL-Library.Multiset"
begin

section \<open>Data model of \<open>fastdns/resolver.py\<close>\<close>

text \<open>
  A job is the tuple \<open>(host, server)\<close> that \<open>_create_workers\<close> puts on the queue.
\<close>

type_synonym job = "string \<times> string"

text \<open>
  The value \<open>dns_lookup\<close> returns: \<open>None\<close> when the query raises (the \<open>try\<close> of lines
  179 to 183 catches everything), the set of the address strings otherwise.
\<close>

type_synonym lookup = "string set option"

text \<open>
  What a call of \<open>dns_lookup\<close> does. The statements before the \<open>try\<close> (lines 169 to
  177: the resolver object, its nameservers and lifetime, the parsing of the domain) are
  not guarded, so the call either raises there or returns a value. Which of the two
  happens, and which value comes back, is decided by the DNS library and the network:
  it is given with the event that completes the lookup.
\<close>

datatype reply = Raises | Returns lookup

text \<open>
  A value stored in \<open>self.cache\<close>: a Python set of strings, or \<open>None\<close> (the value that
  \<open>_update_cache\<close> tests for with \<open>self.cache[host] is None\<close>). The dictionary is an
  association list in insertion order, updated with \<open>AList.update\<close> as a Python
  \<open>dict\<close> is: an existing key keeps its place, a new key goes to the end.
\<close>

datatype entry = PyNone | PySet "string set"

type_synonym cache_dict = "(string \<times> entry) list"

text \<open>
  The \<open>Queue\<close> of one pool, together with the threads started on it. \<open>pending\<close> holds
  the items put and not yet taken (first in, first out); \<open>inflight\<close> holds the items a
  worker has taken with \<open>q.get()\<close> and is looking up; \<open>lost\<close> holds the items whose
  worker was ended by an exception before it reached \<open>q.task_done()\<close>; \<open>nworkers\<close>
  counts the threads started on this queue, so that \<open>nworkers\<close> minus the length of
  \<open>lost\<close> of them are still running \<open>_run\<close>.
\<close>

record jobqueue =
  pending :: "job list"
  inflight :: "job list"
  lost :: "job list"
  nworkers :: nat

text \<open>
  \<open>Queue.unfinished_tasks\<close>: incremented by every \<open>put\<close>, decremented by every
  \<open>task_done\<close>; a worker calls \<open>task_done\<close> once after each \<open>get\<close> unless an
  exception ends it first, so the counter is the number of items still queued, plus the
  number of items held by workers, plus the number of items that were never acknowledged.
\<close>

definition unfinished_tasks :: "jobqueue \<Rightarrow> nat" where
  "unfinished_tasks p = length (pending p) + length (inflight p) + length (lost p)"

text \<open>\<open>Queue(maxsize=0)\<close>: no item, no thread yet.\<close>

definition Queue :: jobqueue where
  "Queue = \<lparr>pending = [], inflight = [], lost = [], nworkers = 0\<rparr>"

text \<open>
  The attributes of a \<open>Resolver\<close>. \<open>workers\<close> is \<open>None\<close> or \<open>True\<close> in the source;
  \<open>dead_hosts\<close> does not exist before the first \<open>resolve()\<close> (\<open>None\<close> here).
\<close>

record resolver =
  tries :: int
  timeout :: int
  hostnames :: "string list"
  domain :: string
  nameservers :: "string list"
  cache :: cache_dict
  q :: "jobqueue option"
  workers :: "bool option"
  dead_hosts :: "string set option"

text \<open>The keyword arguments of the constructor: each one given or absent.\<close>

record kwargs =
  kw_tries :: "int option"
  kw_timeout :: "int option"
  kw_hostnames :: "string list option"
  kw_domain :: "string option"
  kw_nameservers :: "string list option"

definition no_kwargs :: kwargs where
  "no_kwargs = \<lparr>kw_tries = None, kw_timeout = None, kw_hostnames = None,
     kw_domain = None, kw_nameservers = None\<rparr>"

text \<open>\<open>kwargs.get(key, default)\<close>\<close>

fun get_default :: "'a option \<Rightarrow> 'a \<Rightarrow> 'a" where
  "get_default None d = d"
| "get_default (Some v) d = v"

section \<open>The operations\<close>

text \<open>\<open>Resolver.__init__\<close>\<close>

definition init :: "kwargs \<Rightarrow> resolver" where
  "init kw =
     \<lparr>tries = get_default (kw_tries kw) 1,
      timeout = get_default (kw_timeout kw) 5,
      hostnames = get_default (kw_hostnames kw) [''www.google.com'', ''www.cisco.com''],
      domain = get_default (kw_domain kw) ''google.com'',
      nameservers = get_default (kw_nameservers kw) [''8.8.8.8'', ''8.8.4.4''],
      cache = [],
      q = None,
      workers = None,
      dead_hosts = None\<rparr>"

text \<open>\<open>Resolver.clear\<close>; the flag is the source's parameter \<open>cache\<close> (default \<open>True\<close>).\<close>

definition clear :: "bool \<Rightarrow> resolver \<Rightarrow> resolver" where
  "clear cache_flag self =
     (let s1 = self\<lparr>hostnames := []\<rparr>;
          s2 = (if cache_flag then s1\<lparr>cache := []\<rparr> else s1)
      in s2\<lparr>q := None, workers := None\<rparr>)"

text \<open>
  \<open>Resolver._update_cache\<close>. The elements of \<open>ips\<close> may be \<open>None\<close> (the source skips
  them), so the argument is a set of optional strings. The lock makes the whole body one
  atomic step, which is what a function application is. Lines 252 to 255 are
  \<open>ensure_set\<close>, the loop of lines 257 to 259 is \<open>add_ips\<close>: it adds every element that
  is not \<open>None\<close> to the set stored under \<open>host\<close>, and the order in which a set is
  iterated does not show in the result.
\<close>

definition ensure_set :: "string \<Rightarrow> cache_dict \<Rightarrow> cache_dict" where
  "ensure_set host c =
     (case map_of c host of
        None \<Rightarrow> AList.update host (PySet {}) c
      | Some PyNone \<Rightarrow> AList.update host (PySet {}) c
      | Some (PySet s) \<Rightarrow> c)"

definition add_ips :: "string \<Rightarrow> string option set \<Rightarrow> cache_dict \<Rightarrow> cache_dict" where
  "add_ips host ips c =
     (case map_of c host of
        Some (PySet s) \<Rightarrow> AList.update host (PySet (s \<union> Option.these ips)) c
      | _ \<Rightarrow> c)"

definition update_cache :: "string \<Rightarrow> string option set \<Rightarrow> cache_dict \<Rightarrow> cache_dict" where
  "update_cache host ips c =
     (if ips \<noteq> {} then add_ips host ips (ensure_set host c)
      else if map_of c host = None then AList.update host (PySet {}) c
      else c)"

text \<open>
  One iteration of the loop of \<open>Resolver._run\<close> after \<open>q.get()\<close> has returned the job:
  the lookup has produced \<open>ips\<close>, and the cache is updated with it when it is truthy
  (a set that is not empty) and with \<open>set()\<close> otherwise.
\<close>

fun run_body :: "job \<Rightarrow> lookup \<Rightarrow> cache_dict \<Rightarrow> cache_dict" where
  "run_body (host, server) None c = update_cache host {} c"
| "run_body (host, server) (Some ips) c =
     (if ips \<noteq> {} then update_cache host (Some ` ips) c else update_cache host {} c)"

text \<open>
  The three nested loops at the end of \<open>_create_workers\<close>: for each try, for each host,
  for each server, one \<open>q.put((host, server))\<close>. \<open>range(self.tries)\<close> is empty when
  \<open>tries\<close> is not positive.
\<close>

definition enqueued_jobs :: "resolver \<Rightarrow> job list" where
  "enqueued_jobs self =
     concat (replicate (nat (tries self))
       (concat (map (\<lambda>host. map (\<lambda>server. (host, server)) (nameservers self))
          (hostnames self))))"

text \<open>
  \<open>Resolver._create_workers\<close>: \<open>range(num_workers)\<close> threads are started on the queue,
  then the jobs are put. The threads start before the jobs are put; a worker that runs
  early only finds fewer items, so every interleaving of the puts with worker steps is
  also an interleaving in which all puts come first, which is the one modelled.
\<close>

definition create_workers :: "resolver \<Rightarrow> jobqueue \<Rightarrow> int \<Rightarrow> jobqueue" where
  "create_workers self qu num_workers =
     qu\<lparr>nworkers := nworkers qu + nat num_workers,
        pending := pending qu @ enqueued_jobs self\<rparr>"

text \<open>\<open>Resolver._process_dead_hosts\<close>; \<open>not ips\<close> holds for \<open>None\<close> and for the empty set.\<close>

fun falsy :: "entry \<Rightarrow> bool" where
  "falsy PyNone = True"
| "falsy (PySet s) = (s = {})"

definition process_dead_hosts :: "resolver \<Rightarrow> resolver" where
  "process_dead_hosts self =
     self\<lparr>dead_hosts := Some (set (map fst (filter (\<lambda>(h, ips). falsy ips) (cache self))))\<rparr>"

section \<open>The worker pool\<close>

text \<open>
  What the threads of a pool do between the start of the pool and the return of
  \<open>q.join()\<close> is given by a schedule, a list of events. \<open>Get\<close>: a worker that waits in
  \<open>q.get()\<close> takes the oldest item; it can happen when an item is queued and a running
  worker is free. \<open>Answer i (Returns r)\<close>: the call of \<open>dns_lookup\<close> of the worker
  holding the \<open>i\<close>-th item in flight returns \<open>r\<close>; the worker updates the cache under
  the lock and calls \<open>q.task_done()\<close>. \<open>Answer i Raises\<close>: that call raises;
  \<open>_run\<close> has no handler, so the thread ends there, the cache is not touched and
  \<open>q.task_done()\<close> is never called for the item. An event that cannot happen in the
  current state changes nothing.
\<close>

datatype event = Get | Answer nat reply

fun step :: "event \<Rightarrow> jobqueue \<times> cache_dict \<Rightarrow> jobqueue \<times> cache_dict" where
  "step Get (p, c) =
     (case pending p of
        [] \<Rightarrow> (p, c)
      | jb # rest \<Rightarrow>
          if length (inflight p) + length (lost p) < nworkers p
          then (p\<lparr>pending := rest, inflight := inflight p @ [jb]\<rparr>, c)
          else (p, c))"
| "step (Answer i (Returns r)) (p, c) =
     (if i < length (inflight p)
      then (p\<lparr>inflight := take i (inflight p) @ drop (Suc i) (inflight p)\<rparr>,
            run_body (inflight p ! i) r c)
      else (p, c))"
| "step (Answer i Raises) (p, c) =
     (if i < length (inflight p)
      then (p\<lparr>inflight := take i (inflight p) @ drop (Suc i) (inflight p),
              lost := lost p @ [inflight p ! i]\<rparr>, c)
      else (p, c))"

text \<open>
  \<open>q.join()\<close> returns as soon as the count of unfinished tasks is zero. Under a schedule
  that ends before that, the caller is still waiting: the result is \<open>None\<close>. Once an
  item is lost the count never reaches zero again.
\<close>

fun join :: "event list \<Rightarrow> jobqueue \<times> cache_dict \<Rightarrow> (jobqueue \<times> cache_dict) option" where
  "join [] (p, c) = (if unfinished_tasks p = 0 then Some (p, c) else None)"
| "join (e # es) (p, c) =
     (if unfinished_tasks p = 0 then Some (p, c) else join es (step e (p, c)))"

text \<open>
  The jobs whose lookup returns, each with the value returned, in the order of their
  cache updates, until \<open>q.join()\<close> returns.
\<close>

fun answered :: "event list \<Rightarrow> jobqueue \<Rightarrow> (job \<times> lookup) list" where
  "answered [] p = []"
| "answered (e # es) p =
     (if unfinished_tasks p = 0 then []
      else (case e of
              Answer i (Returns r) \<Rightarrow>
                if i < length (inflight p)
                then (inflight p ! i, r) # answered es (fst (step e (p, [])))
                else answered es p
            | _ \<Rightarrow> answered es (fst (step e (p, [])))))"

section \<open>\<open>Resolver.resolve\<close>\<close>

datatype error = AttributeError

datatype outcome = Returned resolver | Raised error | Waiting

text \<open>The number passed to \<open>_create_workers\<close> (lines 308 to 314).\<close>

definition max_workers :: int where
  "max_workers = 510"

definition num_queries :: "resolver \<Rightarrow> int" where
  "num_queries self =
     int (length (hostnames self)) * tries self * int (length (nameservers self))"

definition pool_size :: "resolver \<Rightarrow> int" where
  "pool_size self =
     (if hostnames self \<noteq> [] then
        (if num_queries self > max_workers then max_workers else num_queries self)
      else max_workers)"

text \<open>The block under \<open>if not self.workers\<close> (lines 305 to 317).\<close>

definition start :: "resolver \<Rightarrow> resolver" where
  "start self =
     (if workers self \<noteq> Some True
      then self\<lparr>workers := Some True,
                q := Some (create_workers self Queue (pool_size self))\<rparr>
      else self)"

text \<open>
  \<open>resolve()\<close> under a schedule for the workers. \<open>self.q.join()\<close> on \<open>None\<close> raises
  \<open>AttributeError\<close>. The value returned to the caller is the \<open>cache\<close> of the resolver
  in \<open>Returned\<close>. An exception in a worker thread does not reach the caller: it ends
  that thread only. An interrupt of the process while waiting is not modelled.
\<close>

definition resolve :: "event list \<Rightarrow> resolver \<Rightarrow> outcome" where
  "resolve sched self =
     (let s1 = start self in
      case q s1 of
        None \<Rightarrow> Raised AttributeError
      | Some qu \<Rightarrow>
          (case join sched (qu, cache s1) of
             None \<Rightarrow> Waiting
           | Some (qu', c') \<Rightarrow>
               Returned (process_dead_hosts (s1\<lparr>q := Some qu', cache := c'\<rparr>))))"

section \<open>Notions used to state the properties\<close>

text \<open>
  An entry has grown: \<open>None\<close> may become a set, a set may only become a larger set.
\<close>

fun entry_le :: "entry \<Rightarrow> entry \<Rightarrow> bool" where
  "entry_le PyNone v = True"
| "entry_le (PySet s) PyNone = False"
| "entry_le (PySet s) (PySet t) = (s \<subseteq> t)"

text \<open>
  Every key of \<open>c\<close> is a key of \<open>c'\<close>, and its entry has grown. The entry of a key
  is the one \<open>map_of\<close> finds, as for a dictionary.
\<close>

definition cache_le :: "cache_dict \<Rightarrow> cache_dict \<Rightarrow> bool" where
  "cache_le c c' =
     list_all (\<lambda>h. case map_of c h of
                      None \<Rightarrow> True
                    | Some v \<Rightarrow> (case map_of c' h of None \<Rightarrow> False | Some v' \<Rightarrow> entry_le v v'))
       (map fst c)"

text \<open>A sequence of calls of \<open>_update_cache\<close>, each with its host and its addresses.\<close>

definition merge_all :: "(string \<times> string option set) list \<Rightarrow> cache_dict \<Rightarrow> cache_dict" where
  "merge_all ms c = fold (\<lambda>(host, ips). update_cache host ips) ms c"

text \<open>The test \<open>if ips\<close> of \<open>_run\<close> on the result of a lookup.\<close>

fun truthy :: "lookup \<Rightarrow> bool" where
  "truthy None = False"
| "truthy (Some ips) = (ips \<noteq> {})"

text \<open>The lookups completed while \<open>resolve()\<close> waits, each with the job it answers.\<close>

definition lookups :: "event list \<Rightarrow> resolver \<Rightarrow> (job \<times> lookup) list" where
  "lookups sched self =
     (case q (start self) of None \<Rightarrow> [] | Some qu \<Rightarrow> answered sched qu)"

text \<open>
  The list represents a dictionary whose values are sets: no key twice, no value \<open>None\<close>.
\<close>

definition dict_ok :: "cache_dict \<Rightarrow> bool" where
  "dict_ok c = (distinct (map fst c) \<and> list_all (\<lambda>(h, v). v \<noteq> PyNone) c)"

text \<open>The call ended with an exception.\<close>

fun raised :: "outcome \<Rightarrow> bool" where
  "raised (Raised err) = True"
| "raised (Returned self) = False"
| "raised Waiting = False"

text \<open>The same event with the lookup raising instead of returning.\<close>

fun raise_event :: "event \<Rightarrow> event" where
  "raise_event Get = Get"
| "raise_event (Answer i r) = Answer i Raises"

text \<open>
  A schedule that lets one worker take and answer \<open>n\<close> jobs one after the other, every
  lookup returning \<open>None\<close>.
\<close>

definition drain_sched :: "nat \<Rightarrow> event list" where
  "drain_sched n = concat (replicate n [Get, Answer 0 (Returns None)])"

section \<open>Concrete configurations\<close>

text \<open>
  The example of the specification: targets \<open>www\<close> and \<open>mail\<close>, one nameserver, one
  try; \<open>www\<close> resolves to \<open>1.2.3.4\<close> and the lookup of \<open>mail\<close> fails. Two workers
  take both jobs, \<open>mail\<close> is answered first.
\<close>

definition www_mail :: resolver where
  "www_mail = init (no_kwargs\<lparr>kw_hostnames := Some [''www'', ''mail''],
     kw_nameservers := Some [''8.8.8.8''], kw_tries := Some 1\<rparr>)"

definition www_mail_sched :: "event list" where
  "www_mail_sched = [Get, Get, Answer 1 (Returns None), Answer 0 (Returns (Some {''1.2.3.4''}))]"

definition www_mail_done :: resolver where
  "www_mail_done = www_mail\<lparr>
     cache := [(''mail'', PySet {}), (''www'', PySet {''1.2.3.4''})],
     q := Some \<lparr>pending = [], inflight = [], lost = [], nworkers = 2\<rparr>,
     workers := Some True,
     dead_hosts := Some {''mail''}\<rparr>"

text \<open>The same resolver after its run, given another target, nameserver and tries.\<close>

definition www_mail_again :: resolver where
  "www_mail_again =
     www_mail_done\<lparr>hostnames := [''maps''], nameservers := [''4.2.2.2''], tries := 2\<rparr>"

text \<open>A resolver whose cache already holds an address of its only target.\<close>

definition www_cached :: resolver where
  "www_cached = (init no_kwargs)\<lparr>hostnames := [''www''], nameservers := [''8.8.8.8''],
     cache := [(''www'', PySet {''1.1.1.1''})]\<rparr>"

definition www_grown :: resolver where
  "www_grown = www_cached\<lparr>cache := [(''www'', PySet {''1.1.1.1'', ''2.2.2.2''})],
     q := Some \<lparr>pending = [], inflight = [], lost = [], nworkers = 1\<rparr>,
     workers := Some True, dead_hosts := Some {}\<rparr>"

text \<open>Two targets, two nameservers, three tries: twelve jobs, every lookup failing.\<close>

definition twelve :: resolver where
  "twelve = init (no_kwargs\<lparr>kw_hostnames := Some [''www'', ''mail''],
     kw_nameservers := Some [''8.8.8.8'', ''4.2.2.2''], kw_tries := Some 3\<rparr>)"

definition twelve_sched :: "event list" where
  "twelve_sched = drain_sched 12"

definition twelve_done :: resolver where
  "twelve_done = twelve\<lparr>
     cache := [(''www'', PySet {}), (''mail'', PySet {})],
     q := Some \<lparr>pending = [], inflight = [], lost = [], nworkers = 12\<rparr>,
     workers := Some True,
     dead_hosts := Some {''www'', ''mail''}\<rparr>"

text \<open>One nameserver listed twice.\<close>

definition twice_listed :: resolver where
  "twice_listed = init (no_kwargs\<lparr>kw_hostnames := Some [''www''],
     kw_nameservers := Some [''8.8.8.8'', ''8.8.8.8''], kw_tries := Some 1\<rparr>)"

text \<open>No target.\<close>

definition no_hosts :: resolver where
  "no_hosts = init (no_kwargs\<lparr>kw_hostnames := Some []\<rparr>)"

definition no_hosts_done :: resolver where
  "no_hosts_done = no_hosts\<lparr>workers := Some True,
     q := Some \<lparr>pending = [], inflight = [], lost = [], nworkers = 510\<rparr>,
     dead_hosts := Some {}\<rparr>"

text \<open>One target, no nameserver, a negative timeout.\<close>

definition no_servers :: resolver where
  "no_servers = init (no_kwargs\<lparr>kw_hostnames := Some [''www''], kw_nameservers := Some [],
     kw_timeout := Some (- 1)\<rparr>)"

definition no_servers_done :: resolver where
  "no_servers_done = no_servers\<lparr>workers := Some True,
     q := Some \<lparr>pending = [], inflight = [], lost = [], nworkers = 0\<rparr>,
     dead_hosts := Some {}\<rparr>"

text \<open>One target, one nameserver, a domain with an empty label.\<close>

definition bad_domain :: resolver where
  "bad_domain = init (no_kwargs\<lparr>kw_hostnames := Some [''www''],
     kw_nameservers := Some [''8.8.8.8''], kw_domain := Some ''a..b''\<rparr>)"

section \<open>Lemmas\<close>

lemmas model_defs = resolve_def start_def init_def no_kwargs_def create_workers_def Queue_def
  pool_size_def num_queries_def max_workers_def enqueued_jobs_def unfinished_tasks_def
  process_dead_hosts_def update_cache_def ensure_set_def add_ips_def clear_def

subsection \<open>The cache after \<open>_update_cache\<close>\<close>

lemma map_of_ensure_set:
  "map_of (ensure_set host c) h =
     (if h = host then
        Some (case map_of c host of Some (PySet s) \<Rightarrow> PySet s | _ \<Rightarrow> PySet {})
      else map_of c h)"
  by (simp add: ensure_set_def update_conv' split: option.splits entry.splits)

lemma map_of_add_ips:
  "map_of (add_ips host ips c) h =
     (if h = host then
        (case map_of c host of
           Some (PySet s) \<Rightarrow> Some (PySet (s \<union> Option.these ips))
         | v \<Rightarrow> v)
      else map_of c h)"
  by (simp add: add_ips_def update_conv' split: option.splits entry.splits)

lemma map_of_update_cache:
  "map_of (update_cache host ips c) h =
     (if h = host then
        Some (case map_of c host of
                None \<Rightarrow> PySet (Option.these ips)
              | Some PyNone \<Rightarrow> if ips \<noteq> {} then PySet (Option.these ips) else PyNone
              | Some (PySet s) \<Rightarrow> PySet (s \<union> Option.these ips))
      else map_of c h)"
  by (simp add: update_cache_def map_of_add_ips map_of_ensure_set update_conv'
      split: option.splits entry.splits)

lemma entry_le_refl: "entry_le v v"
  by (cases v) simp_all

lemma entry_le_trans: "entry_le u v \<Longrightarrow> entry_le v w \<Longrightarrow> entry_le u w"
  by (cases u; cases v; cases w) auto

lemma cache_le_iff:
  "cache_le c c' \<longleftrightarrow>
     (\<forall>h v. map_of c h = Some v \<longrightarrow> (\<exists>v'. map_of c' h = Some v' \<and> entry_le v v'))"
proof
  assume le: "cache_le c c'"
  show "\<forall>h v. map_of c h = Some v \<longrightarrow> (\<exists>v'. map_of c' h = Some v' \<and> entry_le v v')"
  proof (intro allI impI)
    fix h v
    assume hv: "map_of c h = Some v"
    then have "h \<in> set (map fst c)"
      by (metis map_of_eq_None_iff option.distinct(1) set_map)
    with le have "case map_of c h of None \<Rightarrow> True
        | Some v \<Rightarrow> (case map_of c' h of None \<Rightarrow> False | Some v' \<Rightarrow> entry_le v v')"
      unfolding cache_le_def list_all_iff by blast
    with hv show "\<exists>v'. map_of c' h = Some v' \<and> entry_le v v'"
      by (cases "map_of c' h") simp_all
  qed
next
  assume "\<forall>h v. map_of c h = Some v \<longrightarrow> (\<exists>v'. map_of c' h = Some v' \<and> entry_le v v')"
  then show "cache_le c c'"
    by (fastforce simp: cache_le_def list_all_iff split: option.splits)
qed

lemma cache_le_refl: "cache_le c c"
  by (auto simp: cache_le_iff entry_le_refl)

lemma cache_le_trans: "cache_le a b \<Longrightarrow> cache_le b c \<Longrightarrow> cache_le a c"
  unfolding cache_le_iff by (meson entry_le_trans)

lemma cache_le_update_cache: "cache_le c (update_cache host ips c)"
  by (auto simp: cache_le_iff map_of_update_cache entry_le_refl split: entry.splits)

lemma cache_le_merge_all: "cache_le c (merge_all ms c)"
proof (induction ms arbitrary: c)
  case Nil
  show ?case by (simp add: merge_all_def cache_le_refl)
next
  case (Cons m ms)
  obtain host ips where m: "m = (host, ips)" by (cases m)
  have "cache_le c (update_cache host ips c)" by (rule cache_le_update_cache)
  moreover have "cache_le (update_cache host ips c) (merge_all ms (update_cache host ips c))"
    by (rule Cons.IH)
  ultimately show ?case
    unfolding m merge_all_def by (auto intro: cache_le_trans)
qed

lemma cache_le_run_body: "cache_le c (run_body jb r c)"
  by (cases "(jb, r, c)" rule: run_body.cases) (auto simp: cache_le_update_cache)

lemma cache_le_step: "cache_le c (snd (step e (p, c)))"
  by (cases "(e, (p, c))" rule: step.cases)
    (auto simp: cache_le_refl cache_le_run_body split: list.splits)

lemma cache_le_join: "join es (p, c) = Some (p', c') \<Longrightarrow> cache_le c c'"
proof (induction es arbitrary: p c)
  case Nil
  then show ?case by (auto simp: cache_le_refl split: if_splits)
next
  case (Cons e es)
  show ?case
  proof (cases "unfinished_tasks p = 0")
    case True
    with Cons.prems show ?thesis by (auto simp: cache_le_refl)
  next
    case False
    obtain p1 c1 where s: "step e (p, c) = (p1, c1)" by (cases "step e (p, c)")
    with False Cons.prems have "join es (p1, c1) = Some (p', c')" by simp
    then have "cache_le c1 c'" by (rule Cons.IH)
    moreover have "cache_le c c1" using cache_le_step [of c e p] s by simp
    ultimately show ?thesis by (rule cache_le_trans[rotated])
  qed
qed

lemma cache_le_resolve: "resolve sched self = Returned self' \<Longrightarrow> cache_le (cache self) (cache self')"
  by (auto simp: resolve_def Let_def start_def process_dead_hosts_def
      split: option.splits if_splits dest: cache_le_join)

subsection \<open>Waiting for the queue\<close>

lemma join_done: "unfinished_tasks p = 0 \<Longrightarrow> join es (p, c) = Some (p, c)"
  by (cases es) simp_all

lemma fst_step: "fst (step e (p, c)) = fst (step e (p, c'))"
  by (cases "(e, (p, c))" rule: step.cases) (auto split: list.splits)

lemma nworkers_step: "nworkers (fst (step e (p, c))) = nworkers p"
  by (cases "(e, (p, c))" rule: step.cases) (auto split: list.splits)

lemma lost_step: "lost p \<noteq> [] \<Longrightarrow> lost (fst (step e (p, c))) \<noteq> []"
  by (cases "(e, (p, c))" rule: step.cases) (auto split: list.splits)

lemma join_lost: "lost p \<noteq> [] \<Longrightarrow> join es (p, c) = None"
proof (induction es arbitrary: p c)
  case Nil
  then show ?case by (simp add: unfinished_tasks_def)
next
  case (Cons e es)
  obtain p1 c1 where s: "step e (p, c) = (p1, c1)" by (cases "step e (p, c)")
  with Cons.prems have "lost p1 \<noteq> []" using lost_step [of p e c] by simp
  then have "join es (p1, c1) = None" by (rule Cons.IH)
  with s Cons.prems show ?case by (simp add: unfinished_tasks_def)
qed

lemma join_induct_rule:
  assumes "join es (p, c) = Some (p', c')"
    and "\<And>p c. unfinished_tasks p = 0 \<Longrightarrow> P p c p c"
    and "\<And>e p c p1 c1. step e (p, c) = (p1, c1) \<Longrightarrow> unfinished_tasks p \<noteq> 0 \<Longrightarrow>
           P p1 c1 p' c' \<Longrightarrow> P p c p' c'"
  shows "P p c p' c'"
  using assms(1)
proof (induction es arbitrary: p c)
  case Nil
  then show ?case by (auto split: if_splits intro: assms(2))
next
  case (Cons e es)
  show ?case
  proof (cases "unfinished_tasks p = 0")
    case True
    with Cons.prems show ?thesis by (auto intro: assms(2))
  next
    case False
    obtain p1 c1 where s: "step e (p, c) = (p1, c1)" by (cases "step e (p, c)")
    with False Cons.prems have "join es (p1, c1) = Some (p', c')" by simp
    then have "P p1 c1 p' c'" by (rule Cons.IH)
    with s False show ?thesis by (rule assms(3))
  qed
qed

lemma join_unfinished: "join es (p, c) = Some (p', c') \<Longrightarrow> unfinished_tasks p' = 0"
  by (erule join_induct_rule) simp_all

lemma join_nworkers: "join es (p, c) = Some (p', c') \<Longrightarrow> nworkers p' = nworkers p"
proof (erule join_induct_rule)
  show "\<And>p c. nworkers p = nworkers p" by simp
next
  fix e p c p1 c1
  assume "step e (p, c) = (p1, c1)" and "nworkers p' = nworkers p1"
  then show "nworkers p' = nworkers p" using nworkers_step [of e p c] by simp
qed

lemma answered_done: "unfinished_tasks p = 0 \<Longrightarrow> answered es p = []"
  by (cases es) simp_all

lemma join_answered:
  "join es (p, c) = Some (p', c') \<Longrightarrow>
     c' = fold (\<lambda>(jb, r). run_body jb r) (answered es p) c"
proof (induction es arbitrary: p c)
  case Nil
  then show ?case by (simp split: if_splits)
next
  case (Cons e es)
  show ?case
  proof (cases "unfinished_tasks p = 0")
    case True
    with Cons.prems show ?thesis by simp
  next
    case False
    obtain p1 c1 where s: "step e (p, c) = (p1, c1)" by (cases "step e (p, c)")
    with False Cons.prems have "join es (p1, c1) = Some (p', c')" by simp
    then have ih: "c' = fold (\<lambda>(jb, r). run_body jb r) (answered es p1) c1" by (rule Cons.IH)
    have p1: "fst (step e (p, [])) = p1" using fst_step [of e p "[]" c] s by simp
    show ?thesis
    proof (cases "(e, (p, c))" rule: step.cases)
      case (1 p0 c0)
      with s have "c1 = c" by (auto split: list.splits if_splits)
      with ih p1 False 1 show ?thesis by simp
    next
      case (2 i r p0 c0)
      show ?thesis
      proof (cases "i < length (inflight p)")
        case True
        with s 2 have "c1 = run_body (inflight p ! i) r c" by auto
        with ih p1 False 2 True show ?thesis by simp
      next
        case nope: False
        with s 2 have "c1 = c" "p1 = p" by auto
        with ih False 2 nope show ?thesis by simp
      qed
    next
      case (3 i p0 c0)
      with s have "c1 = c" by (auto split: if_splits)
      with ih p1 False 3 show ?thesis by simp
    qed
  qed
qed

lemma mset_remove_nth:
  "i < length xs \<Longrightarrow> mset (take i xs @ drop (Suc i) xs) + {#xs ! i#} = mset xs"
proof -
  assume "i < length xs"
  then have "xs = take i xs @ xs ! i # drop (Suc i) xs" by (rule id_take_nth_drop)
  then have "mset xs = mset (take i xs @ xs ! i # drop (Suc i) xs)" by simp
  then show ?thesis by simp
qed

lemma join_answered_mset:
  "join es (p, c) = Some (p', c') \<Longrightarrow>
     mset (map fst (answered es p)) = mset (pending p) + mset (inflight p)"
proof (induction es arbitrary: p c)
  case Nil
  then show ?case by (simp add: unfinished_tasks_def split: if_splits)
next
  case (Cons e es)
  show ?case
  proof (cases "unfinished_tasks p = 0")
    case True
    then show ?thesis by (simp add: unfinished_tasks_def)
  next
    case False
    obtain p1 c1 where s: "step e (p, c) = (p1, c1)" by (cases "step e (p, c)")
    with False Cons.prems have j1: "join es (p1, c1) = Some (p', c')" by simp
    then have ih: "mset (map fst (answered es p1)) = mset (pending p1) + mset (inflight p1)"
      by (rule Cons.IH)
    have p1: "fst (step e (p, [])) = p1" using fst_step [of e p "[]" c] s by simp
    show ?thesis
    proof (cases "(e, (p, c))" rule: step.cases)
      case (1 p0 c0)
      with s have "mset (pending p1) + mset (inflight p1) = mset (pending p) + mset (inflight p)"
        by (auto split: list.splits if_splits)
      with ih p1 False 1 show ?thesis by simp
    next
      case (2 i r p0 c0)
      show ?thesis
      proof (cases "i < length (inflight p)")
        case True
        with s 2 have "pending p1 = pending p"
          "inflight p1 = take i (inflight p) @ drop (Suc i) (inflight p)" by auto
        with ih have "mset (map fst (answered es p1)) + {#inflight p ! i#} =
            mset (pending p) + mset (inflight p)"
          using mset_remove_nth [OF True] by (simp add: add.assoc)
        with p1 False 2 True show ?thesis by simp
      next
        case nope: False
        with s 2 have "p1 = p" by auto
        with ih False 2 nope show ?thesis by simp
      qed
    next
      case (3 i p0 c0)
      show ?thesis
      proof (cases "i < length (inflight p)")
        case True
        with s 3 have "lost p1 \<noteq> []" by auto
        then have "join es (p1, c1) = None" by (rule join_lost)
        with j1 show ?thesis by simp
      next
        case nope: False
        with s 3 have "p1 = p" by auto
        with ih p1 False 3 show ?thesis by simp
      qed
    qed
  qed
qed

lemma join_drain:
  "inflight p = [] \<Longrightarrow> lost p = [] \<Longrightarrow> length (pending p) = n \<Longrightarrow>
   (n \<noteq> 0 \<longrightarrow> 0 < nworkers p) \<Longrightarrow>
   \<exists>p' c'. join (drain_sched n) (p, c) = Some (p', c')"
proof (induction n arbitrary: p c)
  case 0
  then show ?case by (simp add: drain_sched_def unfinished_tasks_def)
next
  case (Suc n)
  from Suc.prems(3) obtain jb rest where pr: "pending p = jb # rest" and len: "length rest = n"
    by (cases "pending p") auto
  let ?p2 = "p\<lparr>pending := rest, inflight := []\<rparr>"
  let ?c2 = "run_body jb None c"
  from Suc.prems have nw: "0 < nworkers p" by simp
  have "inflight ?p2 = []" "lost ?p2 = []" "length (pending ?p2) = n"
    "n \<noteq> 0 \<longrightarrow> 0 < nworkers ?p2"
    using len nw Suc.prems(2) by simp_all
  then obtain p' c' where "join (drain_sched n) (?p2, ?c2) = Some (p', c')"
    using Suc.IH by blast
  moreover have "join (drain_sched (Suc n)) (p, c) = join (drain_sched n) (?p2, ?c2)"
    using pr nw Suc.prems(1,2) by (simp add: drain_sched_def unfinished_tasks_def)
  ultimately show ?case by simp
qed

subsection \<open>A target whose lookups all fail\<close>

lemma run_body_failed: "\<not> truthy r \<Longrightarrow> run_body (host, server) r c = update_cache host {} c"
  by (cases r) simp_all

lemma map_of_run_body_other: "fst jb \<noteq> h \<Longrightarrow> map_of (run_body jb r c) h = map_of c h"
  by (cases "(jb, r, c)" rule: run_body.cases) (auto simp: map_of_update_cache)

lemma fold_failed_keeps_empty:
  "map_of c t = Some (PySet {}) \<Longrightarrow>
   \<forall>(jb, r) \<in> set tr. fst jb = t \<longrightarrow> \<not> truthy r \<Longrightarrow>
   map_of (fold (\<lambda>(jb, r). run_body jb r) tr c) t = Some (PySet {})"
proof (induction tr arbitrary: c)
  case Nil
  then show ?case by simp
next
  case (Cons x tr)
  obtain host server r where x: "x = ((host, server), r)" by (cases x) auto
  have "map_of (run_body (host, server) r c) t = Some (PySet {})"
  proof (cases "host = t")
    case True
    with Cons.prems x have "\<not> truthy r" by auto
    with Cons.prems(1) True show ?thesis by (simp add: run_body_failed map_of_update_cache)
  next
    case False
    with Cons.prems(1) show ?thesis by (simp add: map_of_run_body_other)
  qed
  moreover from Cons.prems have "\<forall>(jb, r) \<in> set tr. fst jb = t \<longrightarrow> \<not> truthy r" by auto
  ultimately have "map_of (fold (\<lambda>(jb, r). run_body jb r) tr (run_body (host, server) r c)) t
      = Some (PySet {})" by (rule Cons.IH)
  with x show ?case by simp
qed

lemma fold_failed_makes_empty:
  "map_of c t = None \<Longrightarrow> t \<in> fst ` fst ` set tr \<Longrightarrow>
   \<forall>(jb, r) \<in> set tr. fst jb = t \<longrightarrow> \<not> truthy r \<Longrightarrow>
   map_of (fold (\<lambda>(jb, r). run_body jb r) tr c) t = Some (PySet {})"
proof (induction tr arbitrary: c)
  case Nil
  then show ?case by simp
next
  case (Cons x tr)
  obtain host server r where x: "x = ((host, server), r)" by (cases x) auto
  from Cons.prems have rest: "\<forall>(jb, r) \<in> set tr. fst jb = t \<longrightarrow> \<not> truthy r" by auto
  show ?case
  proof (cases "host = t")
    case True
    with Cons.prems x have "\<not> truthy r" by auto
    with Cons.prems(1) True have "map_of (run_body (host, server) r c) t = Some (PySet {})"
      by (simp add: run_body_failed map_of_update_cache)
    then have "map_of (fold (\<lambda>(jb, r). run_body jb r) tr (run_body (host, server) r c)) t
      = Some (PySet {})" using rest by (rule fold_failed_keeps_empty)
    with x show ?thesis by simp
  next
    case False
    with Cons.prems(1) have "map_of (run_body (host, server) r c) t = None"
      by (simp add: map_of_run_body_other)
    moreover from False Cons.prems(2) x have "t \<in> fst ` fst ` set tr" by auto
    ultimately have "map_of (fold (\<lambda>(jb, r). run_body jb r) tr (run_body (host, server) r c)) t
      = Some (PySet {})" using rest by (rule Cons.IH)
    with x show ?thesis by simp
  qed
qed

subsection \<open>The jobs\<close>

lemma count_list_concat_replicate:
  "count_list (concat (replicate n xs)) x = n * count_list xs x"
  by (induction n) (simp_all add: count_list_append)

lemma count_list_map_Pair:
  "count_list (map (\<lambda>server. (host, server)) ns) (h, s) = (if h = host then count_list ns s else 0)"
  by (induction ns) auto

lemma count_list_product:
  "count_list (concat (map (\<lambda>host. map (\<lambda>server. (host, server)) ns) hs)) (h, s) =
     count_list hs h * count_list ns s"
  by (induction hs) (simp_all add: count_list_append count_list_map_Pair)

lemma length_product:
  "length (concat (map (\<lambda>host. map (\<lambda>server. (host, server)) ns) hs)) = length hs * length ns"
  by (induction hs) simp_all

lemma length_concat_replicate: "length (concat (replicate n xs)) = n * length xs"
  by (induction n) simp_all

lemma length_enqueued_jobs:
  "length (enqueued_jobs self) =
     nat (tries self) * (length (hostnames self) * length (nameservers self))"
  by (simp add: enqueued_jobs_def length_concat_replicate length_product)

lemma count_enqueued_jobs:
  "count_list (enqueued_jobs self) (h, s) =
     nat (tries self) * (count_list (hostnames self) h * count_list (nameservers self) s)"
  by (simp add: enqueued_jobs_def count_list_concat_replicate count_list_product)

lemma count_list_distinct: "distinct xs \<Longrightarrow> x \<in> set xs \<Longrightarrow> count_list xs x = 1"
  by (induction xs) (auto simp: count_list_0_iff)

lemma enqueued_jobs_no_hosts: "hostnames self = [] \<Longrightarrow> enqueued_jobs self = []"
  by (simp add: enqueued_jobs_def)

lemma concat_replicate_Nil: "concat (replicate n []) = []"
  by (induction n) simp_all

lemma concat_map_Nil: "concat (map (\<lambda>x. []) xs) = []"
  by (induction xs) simp_all

lemma enqueued_jobs_no_servers: "nameservers self = [] \<Longrightarrow> enqueued_jobs self = []"
  by (simp add: enqueued_jobs_def concat_map_Nil concat_replicate_Nil)

lemma hosts_enqueued_jobs:
  "1 \<le> tries self \<Longrightarrow> nameservers self \<noteq> [] \<Longrightarrow> t \<in> set (hostnames self) \<Longrightarrow>
   t \<in> fst ` set (enqueued_jobs self)"
proof -
  assume tr: "1 \<le> tries self" and ns: "nameservers self \<noteq> []" and t: "t \<in> set (hostnames self)"
  from ns obtain s where s: "s \<in> set (nameservers self)" by (cases "nameservers self") auto
  from tr obtain n where n: "nat (tries self) = Suc n" by (cases "nat (tries self)") auto
  from s t have "(t, s) \<in> set (enqueued_jobs self)"
    by (auto simp: enqueued_jobs_def n)
  then show ?thesis by force
qed

lemma num_queries_jobs: "0 \<le> tries self \<Longrightarrow> int (length (enqueued_jobs self)) = num_queries self"
  by (simp add: length_enqueued_jobs num_queries_def)

lemma pool_size_min:
  "pool_size self = (if hostnames self \<noteq> [] then min (num_queries self) 510 else 510)"
  by (simp add: pool_size_def max_workers_def min_def)

lemma num_queries_nonneg: "0 \<le> tries self \<Longrightarrow> 0 \<le> num_queries self"
  by (simp add: num_queries_def)

lemma pool_size_pos:
  assumes "enqueued_jobs self \<noteq> []"
  shows "0 < pool_size self"
proof -
  from assms have h: "hostnames self \<noteq> []" using enqueued_jobs_no_hosts by blast
  from assms have n: "nameservers self \<noteq> []" using enqueued_jobs_no_servers by blast
  from assms have t: "0 < tries self" by (auto simp: enqueued_jobs_def)
  from h n t have "0 < num_queries self" by (simp add: num_queries_def)
  with h show ?thesis by (simp add: pool_size_def max_workers_def)
qed

subsection \<open>\<open>resolve\<close>\<close>

lemma resolve_idle:
  "workers self \<noteq> Some True \<Longrightarrow>
   resolve sched self =
     (case join sched (create_workers self Queue (pool_size self), cache self) of
        None \<Rightarrow> Waiting
      | Some (qu', c') \<Rightarrow>
          Returned (process_dead_hosts
            (self\<lparr>workers := Some True, q := Some qu', cache := c'\<rparr>)))"
  by (simp add: resolve_def start_def split: option.splits)

lemma resolve_active:
  "workers self = Some True \<Longrightarrow> q self = Some qu \<Longrightarrow>
   resolve sched self =
     (case join sched (qu, cache self) of
        None \<Rightarrow> Waiting
      | Some (qu', c') \<Rightarrow> Returned (process_dead_hosts (self\<lparr>q := Some qu', cache := c'\<rparr>)))"
  by (simp add: resolve_def start_def split: option.splits)

lemma resolve_idle_not_raised: "workers self \<noteq> Some True \<Longrightarrow> \<not> raised (resolve sched self)"
  by (simp add: resolve_idle split: option.splits)

lemma resolve_Returned:
  assumes "resolve sched self = Returned self'"
  obtains qu qu' c' where "q (start self) = Some qu"
    and "join sched (qu, cache self) = Some (qu', c')"
    and "self' = process_dead_hosts ((start self)\<lparr>q := Some qu', cache := c'\<rparr>)"
proof -
  have c: "cache (start self) = cache self" by (simp add: start_def)
  from assms show thesis
    unfolding resolve_def Let_def c
    by (auto split: option.splits intro: that)
qed

lemma lookups_idle:
  "workers self \<noteq> Some True \<Longrightarrow>
   lookups sched self = answered sched (create_workers self Queue (pool_size self))"
  by (simp add: lookups_def start_def)

lemma resolve_can_return:
  assumes "workers self \<noteq> Some True"
  shows "\<exists>self'. resolve (drain_sched (length (enqueued_jobs self))) self = Returned self'"
proof -
  let ?p = "create_workers self Queue (pool_size self)"
  have "inflight ?p = []" "lost ?p = []" "length (pending ?p) = length (enqueued_jobs self)"
    by (simp_all add: create_workers_def Queue_def)
  moreover have "length (enqueued_jobs self) \<noteq> 0 \<longrightarrow> 0 < nworkers ?p"
    using pool_size_pos [of self] by (simp add: create_workers_def Queue_def)
  ultimately obtain p' c' where
    "join (drain_sched (length (enqueued_jobs self))) (?p, cache self) = Some (p', c')"
    using join_drain by blast
  with assms show ?thesis by (simp add: resolve_idle)
qed

subsection \<open>Dictionaries whose values are sets\<close>

lemma set_update_subset: "set (AList.update k v c) \<subseteq> insert (k, v) (set c)"
  by (induction c) auto

lemma dict_ok_update: "dict_ok c \<Longrightarrow> v \<noteq> PyNone \<Longrightarrow> dict_ok (AList.update k v c)"
  using set_update_subset [of k v c]
  by (auto simp: dict_ok_def distinct_update list_all_iff)

lemma dict_ok_update_cache: "dict_ok c \<Longrightarrow> dict_ok (update_cache host ips c)"
  by (auto simp: update_cache_def ensure_set_def add_ips_def dict_ok_update
      split: option.splits entry.splits)

lemma dict_ok_run_body: "dict_ok c \<Longrightarrow> dict_ok (run_body jb r c)"
  by (cases "(jb, r, c)" rule: run_body.cases) (auto simp: dict_ok_update_cache)

lemma dict_ok_step: "dict_ok c \<Longrightarrow> dict_ok (snd (step e (p, c)))"
  by (cases "(e, (p, c))" rule: step.cases) (auto simp: dict_ok_run_body split: list.splits)

lemma dict_ok_join:
  assumes "join es (p, c) = Some (p', c')"
  shows "dict_ok c \<longrightarrow> dict_ok c'"
proof (rule join_induct_rule [OF assms, where P = "\<lambda>p c p' c'. dict_ok c \<longrightarrow> dict_ok c'"])
  show "\<And>p c. dict_ok c \<longrightarrow> dict_ok c" by simp
next
  fix e p c p1 c1
  assume "step e (p, c) = (p1, c1)" and "dict_ok c1 \<longrightarrow> dict_ok c'"
  then show "dict_ok c \<longrightarrow> dict_ok c'" using dict_ok_step [of c e p] by auto
qed

lemma dead_hosts_dict_ok:
  assumes "dict_ok c"
  shows "set (map fst (filter (\<lambda>(h, ips). falsy ips) c)) = {h. map_of c h = Some (PySet {})}"
proof -
  from assms have d: "distinct (map fst c)" and n: "\<forall>(h, v) \<in> set c. v \<noteq> PyNone"
    by (auto simp: dict_ok_def list_all_iff)
  have f: "falsy v \<longleftrightarrow> v = PySet {}" if "(h, v) \<in> set c" for h v
    using n that by (cases v) auto
  show ?thesis
  proof (intro set_eqI iffI)
    fix h
    assume "h \<in> set (map fst (filter (\<lambda>(h, ips). falsy ips) c))"
    then obtain v where "(h, v) \<in> set c" "falsy v" by auto
    with f d show "h \<in> {h. map_of c h = Some (PySet {})}" by auto
  next
    fix h
    assume "h \<in> {h. map_of c h = Some (PySet {})}"
    then have "(h, PySet {}) \<in> set c" by (auto dest: map_of_SomeD)
    then show "h \<in> set (map fst (filter (\<lambda>(h, ips). falsy ips) c))" by force
  qed
qed

subsection \<open>Lookups that return nothing, lookups that raise\<close>

text \<open>
  When every lookup of a target returns \<open>None\<close> or the empty set and the call returns,
  the target is mapped to the empty set.
\<close>

lemma failed_lookups_leave_empty:
  "(map_of c host = None \<longrightarrow> map_of (update_cache host {} c) host = Some (PySet {})) \<and>
   (map_of c host = Some v \<longrightarrow> update_cache host {} c = c) \<and>
   (workers self \<noteq> Some True \<longrightarrow> \<not> raised (resolve sched self)) \<and>
   (workers self \<noteq> Some True \<and> t \<in> set (hostnames self) \<and> nameservers self \<noteq> [] \<and>
    1 \<le> tries self \<and>
    (map_of (cache self) t = None \<or> map_of (cache self) t = Some (PySet {})) \<and>
    resolve sched self = Returned self' \<and>
    (\<forall>(jb, r) \<in> set (lookups sched self). fst jb = t \<longrightarrow> \<not> truthy r) \<longrightarrow>
      map_of (cache self') t = Some (PySet {}) \<and>
      (\<exists>dead. dead_hosts self' = Some dead \<and> t \<in> dead))"
proof (intro conjI impI)
  show "map_of c host = None \<Longrightarrow> map_of (update_cache host {} c) host = Some (PySet {})"
    by (simp add: map_of_update_cache)
  show "map_of c host = Some v \<Longrightarrow> update_cache host {} c = c"
    by (simp add: update_cache_def)
  show "workers self \<noteq> Some True \<Longrightarrow> \<not> raised (resolve sched self)"
    by (rule resolve_idle_not_raised)
next
  assume a: "workers self \<noteq> Some True \<and> t \<in> set (hostnames self) \<and> nameservers self \<noteq> [] \<and>
    1 \<le> tries self \<and>
    (map_of (cache self) t = None \<or> map_of (cache self) t = Some (PySet {})) \<and>
    resolve sched self = Returned self' \<and>
    (\<forall>(jb, r) \<in> set (lookups sched self). fst jb = t \<longrightarrow> \<not> truthy r)"
  let ?p = "create_workers self Queue (pool_size self)"
  let ?tr = "answered sched ?p"
  from a have idle: "workers self \<noteq> Some True" by simp
  from a have fails: "\<forall>(jb, r) \<in> set ?tr. fst jb = t \<longrightarrow> \<not> truthy r"
    by (simp add: lookups_idle)
  from a obtain qu qu' c' where st: "q (start self) = Some qu"
    and j: "join sched (qu, cache self) = Some (qu', c')"
    and s: "self' = process_dead_hosts ((start self)\<lparr>q := Some qu', cache := c'\<rparr>)"
    by (blast elim: resolve_Returned)
  from st idle have qu: "qu = ?p" by (simp add: start_def)
  from j qu have c': "c' = fold (\<lambda>(jb, r). run_body jb r) ?tr (cache self)"
    by (simp add: join_answered)
  from j have "mset (map fst ?tr) = mset (pending ?p) + mset (inflight ?p)"
    unfolding qu by (rule join_answered_mset)
  then have "mset (map fst ?tr) = mset (enqueued_jobs self)"
    by (simp add: create_workers_def Queue_def)
  then have "set (map fst ?tr) = set (enqueued_jobs self)" by (rule mset_eq_setD)
  moreover from a have "t \<in> fst ` set (enqueued_jobs self)" by (simp add: hosts_enqueued_jobs)
  ultimately have tin: "t \<in> fst ` fst ` set ?tr" by (metis image_set set_map)
  from a have "map_of (cache self) t = None \<or> map_of (cache self) t = Some (PySet {})" by simp
  then have m: "map_of c' t = Some (PySet {})"
  proof
    assume "map_of (cache self) t = None"
    then show ?thesis unfolding c' using tin fails by (rule fold_failed_makes_empty)
  next
    assume "map_of (cache self) t = Some (PySet {})"
    then show ?thesis unfolding c' using fails by (rule fold_failed_keeps_empty)
  qed
  have cs: "cache self' = c'" unfolding s by (simp add: process_dead_hosts_def)
  from m have "(t, PySet {}) \<in> set c'" by (rule map_of_SomeD)
  then have "t \<in> set (map fst (filter (\<lambda>(h, ips). falsy ips) c'))" by force
  then have "\<exists>dead. dead_hosts self' = Some dead \<and> t \<in> dead"
    unfolding s process_dead_hosts_def by simp
  with m cs show "map_of (cache self') t = Some (PySet {})"
    and "\<exists>dead. dead_hosts self' = Some dead \<and> t \<in> dead" by simp_all
qed

lemma step_raising:
  "snd (step (raise_event e) (p, c)) = c \<and>
   unfinished_tasks (fst (step (raise_event e) (p, c))) = unfinished_tasks p"
  by (cases e) (auto simp: unfinished_tasks_def split: list.splits)

lemma join_raising: "unfinished_tasks p \<noteq> 0 \<Longrightarrow> join (map raise_event es) (p, c) = None"
proof (induction es arbitrary: p c)
  case Nil
  then show ?case by simp
next
  case (Cons e es)
  obtain p1 c1 where s: "step (raise_event e) (p, c) = (p1, c1)"
    by (cases "step (raise_event e) (p, c)")
  with Cons.prems have "unfinished_tasks p1 \<noteq> 0" using step_raising [of e p c] by simp
  then have "join (map raise_event es) (p1, c1) = None" by (rule Cons.IH)
  with s Cons.prems show ?case by simp
qed

lemma fold_step_raising: "snd (fold step (map raise_event es) (p, c)) = c"
proof (induction es arbitrary: p c)
  case Nil
  show ?case by simp
next
  case (Cons e es)
  obtain p1 c1 where s: "step (raise_event e) (p, c) = (p1, c1)"
    by (cases "step (raise_event e) (p, c)")
  then have "c1 = c" using step_raising [of e p c] by simp
  with s Cons.IH [of p1 c1] show ?case by simp
qed

subsection \<open>The concrete runs\<close>

lemma www_mail_resolve: "resolve www_mail_sched www_mail = Returned www_mail_done"
  by code_simp

lemma twelve_resolve: "resolve twelve_sched twelve = Returned twelve_done"
  by code_simp

section \<open>The claims\<close>

subsection \<open>C1\<close>

text \<open>
  C1. Cache merging is monotonic: whatever the sequence of calls of \<open>_update_cache\<close>,
  every key of the cache stays a key and its set of results only gains elements; the same
  holds from the cache before a call of \<open>resolve()\<close> to the cache it returns, and across
  two calls in a row without \<open>clear()\<close>. No entry ever shrinks.
\<close>

theorem merge_monotonic:
  "cache_le c (merge_all ms c) \<and>
   (resolve sched self = Returned self' \<longrightarrow> cache_le (cache self) (cache self')) \<and>
   (resolve sched self = Returned self' \<and> resolve sched' self' = Returned self'' \<longrightarrow>
      cache_le (cache self) (cache self''))"
  by (meson cache_le_merge_all cache_le_resolve cache_le_trans)

theorem merge_monotonic_witness:
  "cache_le [(''www'', PySet {''1.1.1.1''})]
     (merge_all [(''www'', {Some ''2.2.2.2'', None}), (''www'', {}), (''mail'', {})]
        [(''www'', PySet {''1.1.1.1''})]) \<and>
   resolve [Get, Answer 0 (Returns (Some {''2.2.2.2''}))] www_cached = Returned www_grown \<and>
   cache_le (cache www_cached) (cache www_grown) \<and>
   resolve [Get, Answer 0 (Returns None)] www_grown = Returned www_grown \<and>
   cache_le (cache www_cached) (cache www_grown)"
proof -
  have r1: "resolve [Get, Answer 0 (Returns (Some {''2.2.2.2''}))] www_cached = Returned www_grown"
    by (simp add: www_cached_def www_grown_def model_defs insert_commute)
  have r2: "resolve [Get, Answer 0 (Returns None)] www_grown = Returned www_grown"
    by (simp add: www_cached_def www_grown_def model_defs)
  from merge_monotonic [of "[(''www'', PySet {''1.1.1.1''})]"
      "[(''www'', {Some ''2.2.2.2'', None}), (''www'', {}), (''mail'', {})]"
      "[Get, Answer 0 (Returns (Some {''2.2.2.2''}))]" www_cached www_grown "[Get, Answer 0 (Returns None)]" www_grown] r1 r2
  show ?thesis by simp
qed

subsection \<open>C2\<close>

text \<open>
  C2, as amended. A call of \<open>resolve()\<close> that returns leaves the flag \<open>workers\<close> set.
  A second call on the same resolver without \<open>clear()\<close>, whatever targets, nameservers
  and tries it has been given in between, starts no pool and puts no job: the block under
  \<open>if not self.workers\<close> changes nothing, the queue is already drained, and the call
  returns the resolver as it was, with the same cache and the same dead hosts.
\<close>

theorem second_resolve:
  assumes "resolve sched self = Returned self1"
  shows "workers self1 = Some True \<and>
    start (self1\<lparr>hostnames := hs, nameservers := ns, tries := n\<rparr>) =
      self1\<lparr>hostnames := hs, nameservers := ns, tries := n\<rparr> \<and>
    resolve sched' (self1\<lparr>hostnames := hs, nameservers := ns, tries := n\<rparr>) =
      Returned (self1\<lparr>hostnames := hs, nameservers := ns, tries := n\<rparr>)"
proof -
  from assms obtain qu qu' c' where j: "join sched (qu, cache self) = Some (qu', c')"
    and s: "self1 = process_dead_hosts ((start self)\<lparr>q := Some qu', cache := c'\<rparr>)"
    by (rule resolve_Returned)
  have w: "workers self1 = Some True" unfolding s
    by (simp add: process_dead_hosts_def start_def)
  have qq: "q self1 = Some qu'" unfolding s by (simp add: process_dead_hosts_def)
  have d: "dead_hosts self1 = Some (set (map fst (filter (\<lambda>(h, ips). falsy ips) (cache self1))))"
    unfolding s by (simp add: process_dead_hosts_def)
  from j have u: "unfinished_tasks qu' = 0" by (rule join_unfinished)
  let ?s = "self1\<lparr>hostnames := hs, nameservers := ns, tries := n\<rparr>"
  have "join sched' (qu', cache ?s) = Some (qu', cache ?s)" using u by (rule join_done)
  then have "resolve sched' ?s = Returned (process_dead_hosts (?s\<lparr>q := Some qu', cache := cache ?s\<rparr>))"
    using w qq by (simp add: resolve_active)
  moreover have "process_dead_hosts (?s\<lparr>q := Some qu', cache := cache ?s\<rparr>) = ?s"
    using qq d by (simp add: process_dead_hosts_def)
  ultimately show ?thesis using w by (simp add: start_def)
qed

theorem second_resolve_witness:
  "resolve www_mail_sched www_mail = Returned www_mail_done \<and>
   workers www_mail_done = Some True \<and>
   start www_mail_again = www_mail_again \<and>
   resolve [Get, Answer 0 (Returns (Some {''9.9.9.9''}))] www_mail_again = Returned www_mail_again"
  using second_resolve [OF www_mail_resolve, where hs = "[''maps'']" and ns = "[''4.2.2.2'']"
      and n = 2 and sched' = "[Get, Answer 0 (Returns (Some {''9.9.9.9''}))]"] www_mail_resolve
  by (simp add: www_mail_again_def)

text \<open>
  C2 as stated fails. After the run of the example the resolver is given the target
  \<open>maps\<close>, the nameserver \<open>4.2.2.2\<close> and two tries, which enumerate two jobs. The
  second \<open>resolve()\<close> puts none of them on the queue, and under a schedule that would
  answer both with \<open>9.9.9.9\<close> it returns the cache of the first run: \<open>maps\<close> is not
  a key.
\<close>

theorem second_resolve_counterexample:
  "resolve www_mail_sched www_mail = Returned www_mail_done \<and>
   enqueued_jobs www_mail_again =
     [(''maps'', ''4.2.2.2''), (''maps'', ''4.2.2.2'')] \<and>
   resolve [Get, Answer 0 (Returns (Some {''9.9.9.9''})), Get, Answer 0 (Returns (Some {''9.9.9.9''}))] www_mail_again
     = Returned www_mail_again \<and>
   q www_mail_again = Some \<lparr>pending = [], inflight = [], lost = [], nworkers = 2\<rparr> \<and>
   cache www_mail_again = [(''mail'', PySet {}), (''www'', PySet {''1.2.3.4''})] \<and>
   map_of (cache www_mail_again) ''maps'' = None"
  by code_simp

subsection \<open>C3\<close>

text \<open>
  C3, as amended. When \<open>tries\<close> is not negative, the enumeration puts exactly
  \<open>|targets| \<times> |nameservers| \<times> tries\<close> jobs on the queue, and the pair of a target
  and a nameserver appears \<open>tries\<close> times the number of times the target is listed times
  the number of times the nameserver is listed: exactly \<open>tries\<close> times when no target
  and no nameserver is listed twice.
\<close>

theorem job_enumeration:
  assumes "0 \<le> tries self"
  shows "int (length (enqueued_jobs self)) =
           int (length (hostnames self)) * int (length (nameservers self)) * tries self \<and>
    pending (create_workers self Queue n) = enqueued_jobs self \<and>
    int (count_list (enqueued_jobs self) (h, s)) =
      tries self * int (count_list (hostnames self) h) * int (count_list (nameservers self) s) \<and>
    (distinct (hostnames self) \<and> distinct (nameservers self) \<and>
     h \<in> set (hostnames self) \<and> s \<in> set (nameservers self) \<longrightarrow>
       int (count_list (enqueued_jobs self) (h, s)) = tries self)"
  using assms
  by (simp add: length_enqueued_jobs count_enqueued_jobs count_list_distinct
      create_workers_def Queue_def)

theorem job_enumeration_witness:
  "0 \<le> tries twelve \<and>
   int (length (enqueued_jobs twelve)) = 2 * 2 * 3 \<and>
   pending (create_workers twelve Queue 12) = enqueued_jobs twelve \<and>
   distinct (hostnames twelve) \<and> distinct (nameservers twelve) \<and>
   ''mail'' \<in> set (hostnames twelve) \<and> ''4.2.2.2'' \<in> set (nameservers twelve) \<and>
   int (count_list (enqueued_jobs twelve) (''mail'', ''4.2.2.2'')) = 3"
proof -
  have a: "0 \<le> tries twelve" "tries twelve = 3" "length (hostnames twelve) = 2"
    "length (nameservers twelve) = 2"
    "distinct (hostnames twelve)" "distinct (nameservers twelve)"
    "''mail'' \<in> set (hostnames twelve)" "''4.2.2.2'' \<in> set (nameservers twelve)"
    by (simp_all add: twelve_def init_def no_kwargs_def)
  from job_enumeration [OF a(1), of 12 "''mail''" "''4.2.2.2''"] a
  show ?thesis by simp
qed

text \<open>
  C3 as stated fails for a nameserver listed twice: with one target and one try the pair
  appears twice in the enumeration.
\<close>

theorem job_enumeration_counterexample:
  "tries twice_listed = 1 \<and>
   enqueued_jobs twice_listed = [(''www'', ''8.8.8.8''), (''www'', ''8.8.8.8'')] \<and>
   count_list (enqueued_jobs twice_listed) (''www'', ''8.8.8.8'') = 2"
  by (simp add: twice_listed_def init_def no_kwargs_def enqueued_jobs_def)

subsection \<open>C4\<close>

text \<open>
  C4, as amended. When \<open>resolve()\<close> starts a pool (the flag \<open>workers\<close> is not set)
  and \<open>tries\<close> is not negative, the total job count
  \<open>|targets| \<times> |nameservers| \<times> tries\<close> is the number of jobs put on the queue, and
  the number of worker threads is the minimum of that count and 510 when the list of
  targets is not empty, and 510 when it is empty. The pool has that many workers when the
  call returns.
\<close>

theorem pool_size_policy:
  assumes "workers self \<noteq> Some True" and "0 \<le> tries self"
  shows "int (length (enqueued_jobs self)) = num_queries self \<and>
    (\<exists>p. q (start self) = Some p \<and> pending p = enqueued_jobs self \<and>
       int (nworkers p) =
         (if hostnames self \<noteq> [] then min (num_queries self) 510 else 510)) \<and>
    (resolve sched self = Returned self' \<longrightarrow>
       (\<exists>p'. q self' = Some p' \<and>
          int (nworkers p') =
            (if hostnames self \<noteq> [] then min (num_queries self) 510 else 510)))"
proof -
  let ?n = "if hostnames self \<noteq> [] then min (num_queries self) 510 else 510"
  let ?p = "create_workers self Queue (pool_size self)"
  have nn: "0 \<le> ?n" using num_queries_nonneg [OF assms(2)] by simp
  have st: "q (start self) = Some ?p" using assms(1) by (simp add: start_def)
  have pe: "pending ?p = enqueued_jobs self" by (simp add: create_workers_def Queue_def)
  have nw: "int (nworkers ?p) = ?n"
    using nn unfolding pool_size_min [symmetric] by (simp add: create_workers_def Queue_def)
  have fin: "\<exists>p'. q self' = Some p' \<and> int (nworkers p') = ?n"
    if r: "resolve sched self = Returned self'"
  proof -
    from r obtain qu qu' c' where a: "q (start self) = Some qu"
      and j: "join sched (qu, cache self) = Some (qu', c')"
      and s: "self' = process_dead_hosts ((start self)\<lparr>q := Some qu', cache := c'\<rparr>)"
      by (rule resolve_Returned)
    from a st have "qu = ?p" by simp
    with j have "nworkers qu' = nworkers ?p" by (simp add: join_nworkers)
    with nw have "int (nworkers qu') = ?n" by simp
    moreover have "q self' = Some qu'" unfolding s by (simp add: process_dead_hosts_def)
    ultimately show ?thesis by blast
  qed
  from num_queries_jobs [OF assms(2)] st pe nw fin show ?thesis by blast
qed

theorem pool_size_policy_witness:
  "workers twelve \<noteq> Some True \<and> 0 \<le> tries twelve \<and>
   int (length (enqueued_jobs twelve)) = 12 \<and> num_queries twelve = 12 \<and>
   q (start twelve) = Some \<lparr>pending = enqueued_jobs twelve, inflight = [], lost = [], nworkers = 12\<rparr> \<and>
   resolve twelve_sched twelve = Returned twelve_done \<and>
   q twelve_done = Some \<lparr>pending = [], inflight = [], lost = [], nworkers = 12\<rparr>"
proof -
  have a: "workers twelve \<noteq> Some True" "0 \<le> tries twelve"
    by (simp_all add: twelve_def init_def no_kwargs_def)
  have n: "num_queries twelve = 12" by (simp add: twelve_def init_def no_kwargs_def num_queries_def)
  have h: "hostnames twelve \<noteq> []" by (simp add: twelve_def init_def no_kwargs_def)
  have d: "q twelve_done = Some \<lparr>pending = [], inflight = [], lost = [], nworkers = 12\<rparr>"
    by (simp add: twelve_done_def)
  have st: "q (start twelve) =
      Some \<lparr>pending = enqueued_jobs twelve, inflight = [], lost = [], nworkers = 12\<rparr>"
    by (simp add: twelve_def init_def no_kwargs_def start_def create_workers_def Queue_def
        pool_size_def num_queries_def max_workers_def)
  from pool_size_policy [OF a, of twelve_sched twelve_done] a n h d st twelve_resolve
  show ?thesis by simp
qed

text \<open>
  C4 as stated fails for an empty list of targets: the job count is 0, so is its minimum
  with 510, and the pool is started with 510 workers.
\<close>

theorem pool_size_counterexample:
  "workers no_hosts = None \<and> num_queries no_hosts = 0 \<and>
   min (num_queries no_hosts) 510 = 0 \<and>
   q (start no_hosts) = Some \<lparr>pending = [], inflight = [], lost = [], nworkers = 510\<rparr> \<and>
   resolve [] no_hosts = Returned no_hosts_done"
  by (simp add: no_hosts_def no_hosts_done_def model_defs)

subsection \<open>C5\<close>

text \<open>
  C5. The claim: merging an empty result set creates an empty entry for a target without
  one and leaves an existing entry untouched; consequently a target whose lookups all
  fail appears in the cache mapped to the empty set, not as a missing key. The contract
  of \<open>_update_cache\<close> holds, and so does the consequence when the lookups fail by
  returning \<open>None\<close> or an empty set (\<open>failed_lookups_leave_empty\<close>). It does not hold
  when they fail by raising. With one target, one nameserver and the domain \<open>a..b\<close>,
  the parsing of the domain at line 177 raises for the only job. Under every schedule in
  which the lookups raise, \<open>resolve()\<close> is still waiting when the schedule ends and the
  cache is still empty: the target is a missing key.
\<close>

theorem raising_lookup_hangs:
  "resolve (map raise_event sched) bad_domain = Waiting \<and>
   snd (fold step (map raise_event sched)
     (create_workers bad_domain Queue (pool_size bad_domain), cache bad_domain)) = [] \<and>
   enqueued_jobs bad_domain = [(''www'', ''8.8.8.8'')]"
proof -
  let ?p = "create_workers bad_domain Queue (pool_size bad_domain)"
  have idle: "workers bad_domain \<noteq> Some True" and c: "cache bad_domain = []"
    by (simp_all add: bad_domain_def init_def no_kwargs_def)
  have jobs: "enqueued_jobs bad_domain = [(''www'', ''8.8.8.8'')]"
    by (simp add: bad_domain_def init_def no_kwargs_def enqueued_jobs_def)
  then have "unfinished_tasks ?p \<noteq> 0"
    by (simp add: create_workers_def Queue_def unfinished_tasks_def)
  then have "join (map raise_event sched) (?p, cache bad_domain) = None"
    by (rule join_raising)
  with idle have "resolve (map raise_event sched) bad_domain = Waiting"
    by (simp add: resolve_idle)
  moreover have "snd (fold step (map raise_event sched) (?p, cache bad_domain)) = []"
    using c by (simp add: fold_step_raising)
  ultimately show ?thesis using jobs by simp
qed

subsection \<open>C6\<close>

text \<open>
  C6. After every call of \<open>resolve()\<close> that returns, on a cache that is a dictionary of
  sets, the dead hosts are exactly the keys of the returned cache whose value is the empty
  set, whatever the dead hosts were before the call.
\<close>

theorem dead_hosts_exact:
  assumes "dict_ok (cache self)" and "resolve sched self = Returned self'"
  shows "dead_hosts self' = Some {h. map_of (cache self') h = Some (PySet {})}"
proof -
  from assms(2) obtain qu qu' c' where j: "join sched (qu, cache self) = Some (qu', c')"
    and s: "self' = process_dead_hosts ((start self)\<lparr>q := Some qu', cache := c'\<rparr>)"
    by (rule resolve_Returned)
  from j assms(1) have "dict_ok c'" using dict_ok_join by blast
  then have "set (map fst (filter (\<lambda>(h, ips). falsy ips) c')) = {h. map_of c' h = Some (PySet {})}"
    by (rule dead_hosts_dict_ok)
  then show ?thesis unfolding s process_dead_hosts_def by simp
qed

theorem dead_hosts_exact_witness:
  "dict_ok (cache www_mail) \<and> resolve www_mail_sched www_mail = Returned www_mail_done \<and>
   dead_hosts www_mail_done = Some {h. map_of (cache www_mail_done) h = Some (PySet {})} \<and>
   dead_hosts www_mail_done = Some {''mail''}"
proof -
  have a: "dict_ok (cache www_mail)" by (simp add: www_mail_def init_def dict_ok_def)
  have d: "dead_hosts www_mail_done = Some {''mail''}" by (simp add: www_mail_done_def)
  from dead_hosts_exact [OF a www_mail_resolve] a d www_mail_resolve show ?thesis by simp
qed

subsection \<open>C7\<close>

text \<open>
  C7, as amended. Nothing validates the configuration. A call of \<open>resolve()\<close> that
  starts a pool never raises, whatever the timeout; with targets and no nameserver it
  starts no worker, puts no job and returns at once, the cache unchanged and the dead
  hosts recomputed from it.
\<close>

theorem no_validation:
  assumes "workers self \<noteq> Some True"
  shows "\<not> raised (resolve sched (self\<lparr>timeout := t\<rparr>)) \<and>
    (hostnames self \<noteq> [] \<and> nameservers self = [] \<longrightarrow>
       resolve sched (self\<lparr>timeout := t\<rparr>) =
         Returned (process_dead_hosts
           (self\<lparr>timeout := t, workers := Some True,
                 q := Some \<lparr>pending = [], inflight = [], lost = [], nworkers = 0\<rparr>\<rparr>)))"
proof (intro conjI impI)
  from assms show "\<not> raised (resolve sched (self\<lparr>timeout := t\<rparr>))"
    by (simp add: resolve_idle_not_raised)
next
  assume a: "hostnames self \<noteq> [] \<and> nameservers self = []"
  let ?s = "self\<lparr>timeout := t\<rparr>"
  from a have jobs: "enqueued_jobs ?s = []" by (simp add: enqueued_jobs_no_servers)
  from a have "pool_size ?s = 0" by (simp add: pool_size_def num_queries_def max_workers_def)
  with jobs have p: "create_workers ?s Queue (pool_size ?s) = \<lparr>pending = [], inflight = [], lost = [], nworkers = 0\<rparr>"
    by (simp add: create_workers_def Queue_def)
  have "join sched (\<lparr>pending = [], inflight = [], lost = [], nworkers = 0\<rparr>, cache ?s) =
      Some (\<lparr>pending = [], inflight = [], lost = [], nworkers = 0\<rparr>, cache ?s)"
    by (rule join_done) (simp add: unfinished_tasks_def)
  with assms p show "resolve sched ?s = Returned (process_dead_hosts
           (self\<lparr>timeout := t, workers := Some True,
                 q := Some \<lparr>pending = [], inflight = [], lost = [], nworkers = 0\<rparr>\<rparr>))"
    by (simp add: resolve_idle)
qed

theorem no_validation_witness:
  "workers no_servers \<noteq> Some True \<and>
   hostnames no_servers \<noteq> [] \<and> nameservers no_servers = [] \<and>
   \<not> raised (resolve [Get] (no_servers\<lparr>timeout := 0\<rparr>)) \<and>
   resolve [Get] (no_servers\<lparr>timeout := 0\<rparr>) = Returned (no_servers_done\<lparr>timeout := 0\<rparr>)"
proof -
  have a: "workers no_servers \<noteq> Some True" "hostnames no_servers \<noteq> []"
    "nameservers no_servers = []"
    by (simp_all add: no_servers_def init_def no_kwargs_def)
  have b: "process_dead_hosts (no_servers\<lparr>timeout := 0, workers := Some True,
      q := Some \<lparr>pending = [], inflight = [], lost = [], nworkers = 0\<rparr>\<rparr>) = no_servers_done\<lparr>timeout := 0\<rparr>"
    by (simp add: no_servers_def no_servers_done_def init_def no_kwargs_def process_dead_hosts_def)
  from no_validation [OF a(1), of "[Get]" 0] a b show ?thesis by simp
qed

text \<open>
  C7 as stated fails: with the target \<open>www\<close>, no nameserver and the timeout \<open>-1\<close>,
  \<open>resolve()\<close> returns without an error, the cache as empty as it was.
\<close>

theorem fail_fast_counterexample:
  "hostnames no_servers = [''www''] \<and> nameservers no_servers = [] \<and> timeout no_servers = - 1 \<and>
   resolve [] no_servers = Returned no_servers_done \<and>
   \<not> raised (resolve [] no_servers) \<and>
   cache no_servers_done = cache no_servers"
  by (simp add: no_servers_def no_servers_done_def model_defs)

subsection \<open>C8\<close>

text \<open>
  C8. With no target and an empty cache, \<open>resolve()\<close> returns under every schedule of
  the workers, the empty one included, whatever the nameservers and the tries. When it
  starts a pool, the pool has 510 workers, the queue holds no item and no worker holds
  one, the cache is empty and so is the set of dead hosts. When the pool of an earlier
  call is there with its queue drained, the call returns the empty cache as well.
\<close>

theorem no_targets:
  assumes "hostnames self = []" and "cache self = []"
  shows "(workers self \<noteq> Some True \<longrightarrow>
           resolve sched self =
             Returned (self\<lparr>workers := Some True,
               q := Some \<lparr>pending = [], inflight = [], lost = [], nworkers = 510\<rparr>,
               dead_hosts := Some {}\<rparr>)) \<and>
         (workers self = Some True \<and> q self = Some p \<and> unfinished_tasks p = 0 \<longrightarrow>
           resolve sched self = Returned (self\<lparr>dead_hosts := Some {}\<rparr>))"
proof (intro conjI impI)
  assume idle: "workers self \<noteq> Some True"
  from assms have "create_workers self Queue (pool_size self) =
      \<lparr>pending = [], inflight = [], lost = [], nworkers = 510\<rparr>"
    by (simp add: create_workers_def Queue_def pool_size_def max_workers_def enqueued_jobs_no_hosts)
  moreover have "join sched (\<lparr>pending = [], inflight = [], lost = [], nworkers = 510\<rparr>, cache self) =
      Some (\<lparr>pending = [], inflight = [], lost = [], nworkers = 510\<rparr>, cache self)"
    by (rule join_done) (simp add: unfinished_tasks_def)
  ultimately show "resolve sched self =
             Returned (self\<lparr>workers := Some True,
               q := Some \<lparr>pending = [], inflight = [], lost = [], nworkers = 510\<rparr>,
               dead_hosts := Some {}\<rparr>)"
    using idle assms(2) by (simp add: resolve_idle process_dead_hosts_def)
next
  assume a: "workers self = Some True \<and> q self = Some p \<and> unfinished_tasks p = 0"
  then have "join sched (p, cache self) = Some (p, cache self)" by (simp add: join_done)
  with a assms(2) show "resolve sched self = Returned (self\<lparr>dead_hosts := Some {}\<rparr>)"
    by (simp add: resolve_active process_dead_hosts_def)
qed

theorem no_targets_witness:
  "hostnames no_hosts = [] \<and> cache no_hosts = [] \<and> workers no_hosts \<noteq> Some True \<and>
   resolve [Get, Answer 0 (Returns None)] no_hosts = Returned no_hosts_done \<and>
   cache no_hosts_done = [] \<and>
   hostnames no_hosts_done = [] \<and> workers no_hosts_done = Some True \<and>
   q no_hosts_done = Some \<lparr>pending = [], inflight = [], lost = [], nworkers = 510\<rparr> \<and>
   unfinished_tasks \<lparr>pending = [], inflight = [], lost = [], nworkers = 510\<rparr> = 0 \<and>
   resolve [Get] no_hosts_done = Returned no_hosts_done"
proof -
  have a: "hostnames no_hosts = []" "cache no_hosts = []" "workers no_hosts \<noteq> Some True"
    by (simp_all add: no_hosts_def init_def no_kwargs_def)
  have b: "hostnames no_hosts_done = []" "cache no_hosts_done = []"
    "workers no_hosts_done = Some True"
    "q no_hosts_done = Some \<lparr>pending = [], inflight = [], lost = [], nworkers = 510\<rparr>"
    "unfinished_tasks \<lparr>pending = [], inflight = [], lost = [], nworkers = 510\<rparr> = 0"
    by (simp_all add: no_hosts_done_def no_hosts_def init_def no_kwargs_def unfinished_tasks_def)
  have c: "no_hosts_done\<lparr>dead_hosts := Some {}\<rparr> = no_hosts_done"
    by (simp add: no_hosts_done_def)
  from no_targets [OF a(1,2), of "[Get, Answer 0 (Returns None)]"
      "\<lparr>pending = [], inflight = [], lost = [], nworkers = 510\<rparr>"]
    no_targets [OF b(1,2), of "[Get]" "\<lparr>pending = [], inflight = [], lost = [], nworkers = 510\<rparr>"]
    a b c
  show ?thesis by (simp add: no_hosts_done_def)
qed

subsection \<open>C9\<close>

text \<open>
  C9. \<open>clear(cache=True)\<close> empties the list of targets, the queue and worker handles
  and the cache. A call of \<open>resolve()\<close> after it, on whatever configuration is supplied,
  behaves as on a newly constructed resolver with that configuration, and the cache it
  returns is the empty dictionary updated with the lookups of that run and nothing else.
\<close>

theorem clear_resets:
  "hostnames (clear True self) = [] \<and> cache (clear True self) = [] \<and>
   q (clear True self) = None \<and> workers (clear True self) = None \<and>
   resolve sched ((clear True self)
       \<lparr>hostnames := hs, nameservers := ns, tries := n, timeout := t, domain := d\<rparr>) =
     resolve sched (init \<lparr>kw_tries = Some n, kw_timeout = Some t, kw_hostnames = Some hs,
       kw_domain = Some d, kw_nameservers = Some ns\<rparr>) \<and>
   (resolve sched ((clear True self)
       \<lparr>hostnames := hs, nameservers := ns, tries := n, timeout := t, domain := d\<rparr>) =
      Returned self' \<longrightarrow>
    cache self' =
      fold (\<lambda>(jb, r). run_body jb r)
        (lookups sched ((clear True self)
           \<lparr>hostnames := hs, nameservers := ns, tries := n, timeout := t, domain := d\<rparr>)) [])"
proof -
  let ?s = "(clear True self)
       \<lparr>hostnames := hs, nameservers := ns, tries := n, timeout := t, domain := d\<rparr>"
  have fields: "hostnames (clear True self) = []" "cache (clear True self) = []"
    "q (clear True self) = None" "workers (clear True self) = None"
    by (simp_all add: clear_def)
  have fresh: "resolve sched ?s =
     resolve sched (init \<lparr>kw_tries = Some n, kw_timeout = Some t, kw_hostnames = Some hs,
       kw_domain = Some d, kw_nameservers = Some ns\<rparr>)"
    by (simp add: clear_def init_def resolve_idle process_dead_hosts_def create_workers_def
        pool_size_def num_queries_def enqueued_jobs_def split: option.splits)
  have idle: "workers ?s \<noteq> Some True" and empty: "cache ?s = []"
    by (simp_all add: clear_def)
  have built: "cache self' = fold (\<lambda>(jb, r). run_body jb r) (lookups sched ?s) []"
    if r: "resolve sched ?s = Returned self'"
  proof -
    from r obtain qu qu' c' where st: "q (start ?s) = Some qu"
      and j: "join sched (qu, cache ?s) = Some (qu', c')"
      and s: "self' = process_dead_hosts ((start ?s)\<lparr>q := Some qu', cache := c'\<rparr>)"
      by (rule resolve_Returned)
    from j have "c' = fold (\<lambda>(jb, r). run_body jb r) (answered sched qu) (cache ?s)"
      by (rule join_answered)
    moreover have "lookups sched ?s = answered sched qu" using st by (simp add: lookups_def)
    moreover have "cache self' = c'" unfolding s by (simp add: process_dead_hosts_def)
    ultimately show ?thesis using empty by simp
  qed
  from fields fresh built show ?thesis by blast
qed

theorem clear_resets_witness:
  "resolve www_mail_sched
     ((clear True www_grown)\<lparr>hostnames := [''www'', ''mail''], nameservers := [''8.8.8.8''],
        tries := 1, timeout := 5, domain := ''google.com''\<rparr>) = Returned www_mail_done \<and>
   cache www_mail_done =
     fold (\<lambda>(jb, r). run_body jb r)
       (lookups www_mail_sched
          ((clear True www_grown)\<lparr>hostnames := [''www'', ''mail''],
             nameservers := [''8.8.8.8''], tries := 1, timeout := 5,
             domain := ''google.com''\<rparr>)) [] \<and>
   cache www_mail_done = [(''mail'', PySet {}), (''www'', PySet {''1.2.3.4''})]"
proof -
  have r: "resolve www_mail_sched
     ((clear True www_grown)\<lparr>hostnames := [''www'', ''mail''], nameservers := [''8.8.8.8''],
        tries := 1, timeout := 5, domain := ''google.com''\<rparr>) = Returned www_mail_done"
    by code_simp
  have c: "cache www_mail_done = [(''mail'', PySet {}), (''www'', PySet {''1.2.3.4''})]"
    by (simp add: www_mail_done_def)
  from clear_resets [where self = www_grown and sched = www_mail_sched
      and hs = "[''www'', ''mail'']" and ns = "[''8.8.8.8'']" and n = 1 and t = 5
      and d = "''google.com''" and self' = www_mail_done] r c
  show ?thesis by simp
qed

subsection \<open>C10\<close>

text \<open>
  C10. A \<open>Resolver\<close> constructed with no arguments has \<open>tries = 1\<close>, \<open>timeout = 5\<close>,
  \<open>hostnames = ['www.google.com', 'www.cisco.com']\<close>, \<open>domain = 'google.com'\<close>,
  \<open>nameservers = ['8.8.8.8', '8.8.4.4']\<close>, an empty cache, and neither a queue nor a
  worker pool.
\<close>

theorem init_defaults:
  "tries (init no_kwargs) = 1 \<and>
   timeout (init no_kwargs) = 5 \<and>
   hostnames (init no_kwargs) = [''www.google.com'', ''www.cisco.com''] \<and>
   domain (init no_kwargs) = ''google.com'' \<and>
   nameservers (init no_kwargs) = [''8.8.8.8'', ''8.8.4.4''] \<and>
   cache (init no_kwargs) = [] \<and>
   q (init no_kwargs) = None \<and>
   workers (init no_kwargs) = None"
  by (simp add: init_def no_kwargs_def)

end
